theory Spec2Isabelle
  imports Main "HOL-Library.List_Lexorder"
begin

section \<open>Byte buffers, strings and slices\<close>

text \<open>
  A Python \<open>bytes\<close> object is a list of 8-bit characters; a Python \<open>str\<close> is a list of
  Unicode code points. Comparison of \<open>str\<close> values is lexicographic on code points,
  which is the list order of \<open>HOL-Library.List_Lexorder\<close>.
\<close>

type_synonym bytes = "char list"
type_synonym str = "int list"

text \<open>A \<open>str\<close> literal from ASCII characters.\<close>

definition ascii :: "string \<Rightarrow> str" where
  "ascii s = map of_char s"

text \<open>
  Python slicing \<open>xs[lo:hi]\<close>: a negative index counts from the end, and both indices
  are clamped to the length. A slice never raises.
\<close>

definition slice_index :: "nat \<Rightarrow> int \<Rightarrow> nat" where
  "slice_index n i = (if i < 0 then nat (max 0 (i + int n)) else min (nat i) n)"

definition slice :: "'a list \<Rightarrow> int \<Rightarrow> int \<Rightarrow> 'a list" where
  "slice xs lo hi =
     (let l = slice_index (length xs) lo; h = slice_index (length xs) hi
      in take (h - l) (drop l xs))"

section \<open>Marker scanner\<close>

text \<open>
  \<open>find_sub xs pat\<close> is the lowest index at which \<open>pat\<close> occurs in \<open>xs\<close>, and
  \<open>bytes_find data sub start\<close> is Python's \<open>data.find(sub, start)\<close>: the lowest index
  at or after \<open>start\<close> where \<open>sub\<close> occurs, or \<open>-1\<close>.
\<close>

fun find_sub :: "'a list \<Rightarrow> 'a list \<Rightarrow> nat option" where
  "find_sub [] pat = (if pat = [] then Some 0 else None)"
| "find_sub (x # xs) pat =
     (if take (length pat) (x # xs) = pat then Some 0
      else map_option Suc (find_sub xs pat))"

definition bytes_find :: "bytes \<Rightarrow> bytes \<Rightarrow> int \<Rightarrow> int" where
  "bytes_find data sub start =
     (let n = int (length data);
          s = (if start < 0 then max 0 (start + n) else start)
      in if n < s then - 1
         else case find_sub (drop (nat s) data) sub of
                None \<Rightarrow> - 1
              | Some i \<Rightarrow> s + int i)"

lemma find_sub_le: "find_sub xs pat = Some i \<Longrightarrow> i \<le> length xs"
  by (induction xs arbitrary: i) (auto split: if_splits)

lemma bytes_find_range:
  assumes "bytes_find data sub start \<noteq> - 1"
  shows "start \<le> bytes_find data sub start" and "bytes_find data sub start \<le> int (length data)"
proof -
  let ?n = "int (length data)"
  let ?s = "if start < 0 then max 0 (start + ?n) else start"
  from assms have le: "?s \<le> ?n"
    by (auto simp: bytes_find_def Let_def split: if_splits)
  from assms obtain i where i: "find_sub (drop (nat ?s) data) sub = Some i"
    and r: "bytes_find data sub start = ?s + int i"
    using le by (auto simp: bytes_find_def Let_def split: option.splits if_splits)
  from find_sub_le [OF i] have "i \<le> length data - nat ?s" by simp
  with le r show "start \<le> bytes_find data sub start"
    and "bytes_find data sub start \<le> int (length data)"
    by (auto split: if_splits)
qed

text \<open>
  The loop of \<open>find_all\<close>: search from \<open>pos\<close>, record the match, resume one byte after
  it. The accumulator is the list \<open>positions\<close>.
\<close>

function find_all_loop :: "bytes \<Rightarrow> bytes \<Rightarrow> int \<Rightarrow> int list \<Rightarrow> int list" where
  "find_all_loop data pattern pos positions =
     (if bytes_find data pattern pos = - 1 then positions
      else find_all_loop data pattern (bytes_find data pattern pos + 1)
             (positions @ [bytes_find data pattern pos]))"
  by pat_completeness auto
termination
proof (relation "measure (\<lambda>(data, pattern, pos, positions). nat (int (length data) + 1 - pos))")
  show "wf (measure (\<lambda>(data, pattern, pos, positions). nat (int (length data) + 1 - pos)))"
    by simp
next
  fix data pattern :: bytes and pos :: int and positions :: "int list"
  assume "bytes_find data pattern pos \<noteq> - 1"
  from bytes_find_range [OF this]
  show "((data, pattern, bytes_find data pattern pos + 1, positions @ [bytes_find data pattern pos]),
         (data, pattern, pos, positions))
        \<in> measure (\<lambda>(data, pattern, pos, positions). nat (int (length data) + 1 - pos))"
    by simp
qed

declare find_all_loop.simps [simp del]

definition find_all :: "bytes \<Rightarrow> bytes \<Rightarrow> int list" where
  "find_all data pattern = find_all_loop data pattern 0 []"

section \<open>Errors\<close>

text \<open>
  The exceptions the extraction code can meet. A computation that may raise returns
  \<open>error + 'a\<close>, with \<open>Inl\<close> the exception.
\<close>

datatype error = StructError | ValueError | OverflowError | IndexError | JSONError | OSError

text \<open>A \<open>for\<close> loop whose body may raise: the first exception leaves the loop.\<close>

fun for_each :: "('a \<Rightarrow> 's \<Rightarrow> error + 's) \<Rightarrow> 'a list \<Rightarrow> 's \<Rightarrow> error + 's" where
  "for_each body [] s = Inr s"
| "for_each body (x # xs) s =
     (case body x s of Inl e \<Rightarrow> Inl e | Inr s' \<Rightarrow> for_each body xs s')"

section \<open>Character classes and string operations\<close>

text \<open>\<open>bytes.isalnum()\<close>: non-empty, and every byte an ASCII letter or digit.\<close>

definition ascii_isalnum :: "int \<Rightarrow> bool" where
  "ascii_isalnum c \<longleftrightarrow> (48 \<le> c \<and> c \<le> 57) \<or> (65 \<le> c \<and> c \<le> 90) \<or> (97 \<le> c \<and> c \<le> 122)"

definition bytes_isalnum :: "bytes \<Rightarrow> bool" where
  "bytes_isalnum bs \<longleftrightarrow> bs \<noteq> [] \<and> list_all (\<lambda>b. ascii_isalnum (of_char b)) bs"

text \<open>
  \<open>chr(b).isalnum()\<close> for a byte value \<open>b\<close>: \<open>str.isalnum\<close> on the code points below
  256, which beyond ASCII holds for the Latin-1 letters, the superscript digits and the
  vulgar fractions.
\<close>

definition latin1_isalnum :: "int \<Rightarrow> bool" where
  "latin1_isalnum c \<longleftrightarrow>
     ascii_isalnum c \<or> c = 0xAA \<or> c = 0xB2 \<or> c = 0xB3 \<or> c = 0xB5 \<or> c = 0xB9 \<or> c = 0xBA
     \<or> c = 0xBC \<or> c = 0xBD \<or> c = 0xBE
     \<or> (0xC0 \<le> c \<and> c \<le> 0xD6) \<or> (0xD8 \<le> c \<and> c \<le> 0xF6) \<or> (0xF8 \<le> c \<and> c \<le> 0xFF)"

text \<open>\<open>bs.decode('ascii', errors='ignore')\<close>: the bytes below 128, as code points.\<close>

definition ascii_decode_ignore :: "bytes \<Rightarrow> str" where
  "ascii_decode_ignore bs = map of_char (filter (\<lambda>b. of_char b < (128::int)) bs)"

text \<open>\<open>str.isspace\<close> on one code point, and \<open>str.strip()\<close>.\<close>

definition str_isspace :: "int \<Rightarrow> bool" where
  "str_isspace c \<longleftrightarrow>
     (0x09 \<le> c \<and> c \<le> 0x0D) \<or> (0x1C \<le> c \<and> c \<le> 0x20) \<or> c = 0x85 \<or> c = 0xA0
     \<or> c = 0x1680 \<or> (0x2000 \<le> c \<and> c \<le> 0x200A) \<or> c = 0x2028 \<or> c = 0x2029
     \<or> c = 0x202F \<or> c = 0x205F \<or> c = 0x3000"

definition rstrip_by :: "('a \<Rightarrow> bool) \<Rightarrow> 'a list \<Rightarrow> 'a list" where
  "rstrip_by P s = rev (dropWhile P (rev s))"

definition str_strip :: "str \<Rightarrow> str" where
  "str_strip s = rstrip_by str_isspace (dropWhile str_isspace s)"

text \<open>\<open>s.rstrip(chars)\<close>: drop the trailing characters that are in \<open>chars\<close>.\<close>

definition str_rstrip :: "str \<Rightarrow> str \<Rightarrow> str" where
  "str_rstrip s chars = rstrip_by (\<lambda>c. c \<in> set chars) s"

text \<open>\<open>sub in s\<close> on strings.\<close>

definition str_contains :: "str \<Rightarrow> str \<Rightarrow> bool" where
  "str_contains s sub \<longleftrightarrow> find_sub s sub \<noteq> None"

text \<open>
  \<open>str.lower()\<close>. On a string of ASCII characters it maps \<open>A\<close>..\<open>Z\<close> to \<open>a\<close>..\<open>z\<close>. On any
  other string it follows the Unicode case tables, which are not part of the program:
  they are the parameter \<open>ulower\<close>.
\<close>

definition ascii_lower :: "int \<Rightarrow> int" where
  "ascii_lower c = (if 65 \<le> c \<and> c \<le> 90 then c + 32 else c)"

definition str_lower :: "(str \<Rightarrow> str) \<Rightarrow> str \<Rightarrow> str" where
  "str_lower ulower s = (if list_all (\<lambda>c. c < 128) s then map ascii_lower s else ulower s)"

text \<open>
  \<open>bs.decode('utf-8', errors='ignore')\<close>. A well-formed sequence gives its code point.
  An ill-formed one is dropped up to the first byte that cannot continue it, and decoding
  resumes there; a sequence cut off by the end of the input is dropped whole. Overlong
  forms, surrogates and code points above \<open>0x10FFFF\<close> are ill-formed.
\<close>

definition is_cont :: "int \<Rightarrow> bool" where
  "is_cont c \<longleftrightarrow> 0x80 \<le> c \<and> c < 0xC0"

fun utf8_decode_ignore :: "int list \<Rightarrow> str" where
  "utf8_decode_ignore [] = []"
| "utf8_decode_ignore (b # r) =
     (if b < 0x80 then b # utf8_decode_ignore r
      else if b < 0xC2 then utf8_decode_ignore r
      else if b < 0xE0 then
        (case r of
           [] \<Rightarrow> []
         | c # r1 \<Rightarrow>
             if \<not> is_cont c then utf8_decode_ignore r
             else ((b mod 0x20) * 0x40 + c mod 0x40) # utf8_decode_ignore r1)
      else if b < 0xF0 then
        (case r of
           [] \<Rightarrow> []
         | c # r1 \<Rightarrow>
             if \<not> is_cont c \<or> (b = 0xE0 \<and> c < 0xA0) \<or> (b = 0xED \<and> 0xA0 \<le> c)
             then utf8_decode_ignore r
             else (case r1 of
                     [] \<Rightarrow> []
                   | d # r2 \<Rightarrow>
                       if \<not> is_cont d then utf8_decode_ignore r1
                       else ((b mod 0x10) * 0x1000 + (c mod 0x40) * 0x40 + d mod 0x40)
                            # utf8_decode_ignore r2))
      else if b < 0xF5 then
        (case r of
           [] \<Rightarrow> []
         | c # r1 \<Rightarrow>
             if \<not> is_cont c \<or> (b = 0xF0 \<and> c < 0x90) \<or> (b = 0xF4 \<and> 0x90 \<le> c)
             then utf8_decode_ignore r
             else (case r1 of
                     [] \<Rightarrow> []
                   | d # r2 \<Rightarrow>
                       if \<not> is_cont d then utf8_decode_ignore r1
                       else (case r2 of
                               [] \<Rightarrow> []
                             | e # r3 \<Rightarrow>
                                 if \<not> is_cont e then utf8_decode_ignore r2
                                 else ((b mod 0x08) * 0x40000 + (c mod 0x40) * 0x1000
                                       + (d mod 0x40) * 0x40 + e mod 0x40)
                                      # utf8_decode_ignore r3)))
      else utf8_decode_ignore r)"

definition utf8_decode :: "bytes \<Rightarrow> str" where
  "utf8_decode bs = utf8_decode_ignore (map of_char bs)"

section \<open>Layer names\<close>

text \<open>
  The backward walk of \<open>extract_layers\<close>: from \<open>start\<close>, step left while \<open>start > 0\<close> and
  the byte at \<open>start\<close> is alphanumeric or one of \<open>_\<close>, space, \<open>-\<close>, \<open>.\<close>; the value is the
  final \<open>start\<close>.
\<close>

function layers_walk :: "bytes \<Rightarrow> int \<Rightarrow> int" where
  "layers_walk data start =
     (if 0 < start \<and> (bytes_isalnum (slice data start (start + 1))
                     \<or> slice data start (start + 1) \<in> set [''_'', '' '', ''-'', ''.''])
      then layers_walk data (start - 1)
      else start)"
  by pat_completeness auto
termination
  by (relation "measure (\<lambda>(data, start). nat start)") auto

declare layers_walk.simps [simp del]

definition layers_step :: "bytes \<Rightarrow> int \<Rightarrow> str set \<Rightarrow> str set" where
  "layers_step data pos names =
     (let start = layers_walk data (pos - 1);
          name = str_strip (ascii_decode_ignore (slice data (start + 1) pos))
      in if name \<noteq> [] \<and> 1 < length name then insert name names else names)"

definition extract_layers :: "bytes \<Rightarrow> str list" where
  "extract_layers data =
     (let marker = ''1CgaT'';
          positions = find_all data marker;
          names = fold (layers_step data) positions {}
      in sorted_list_of_set names)"

section \<open>Text content\<close>

text \<open>\<open>struct.unpack('<I', bs)\<close>: four bytes, little-endian, unsigned.\<close>

definition unpack_u32_le :: "bytes \<Rightarrow> error + int" where
  "unpack_u32_le bs =
     (case bs of
        [b0, b1, b2, b3] \<Rightarrow>
          Inr (of_char b0 + 0x100 * of_char b1 + 0x10000 * of_char b2 + 0x1000000 * of_char b3)
      | _ \<Rightarrow> Inl StructError)"

definition denylist :: "str list" where
  "denylist = [ascii ''siehe'', ascii ''voir'', ascii ''vedi'', ascii ''consultar'',
               ascii ''ver '', ascii ''endnotes'']"

text \<open>
  The body of the \<open>try\<close> block for one occurrence, and the loop step with its
  \<open>except: pass\<close>: an exception leaves the set as it was.
\<close>

definition text_body :: "(str \<Rightarrow> str) \<Rightarrow> bytes \<Rightarrow> int \<Rightarrow> str set \<Rightarrow> error + str set" where
  "text_body ulower data pos texts =
     (case unpack_u32_le (slice data (pos + 5) (pos + 9)) of
        Inl e \<Rightarrow> Inl e
      | Inr len \<Rightarrow>
          if 0 < len \<and> len < 500 then
            (let text = str_rstrip (utf8_decode (slice data (pos + 9) (pos + 9 + len))) [0]
             in if text \<noteq> [] \<and> 0 < length (str_strip text) then
                  (if \<not> list_ex (\<lambda>x. str_contains (str_lower ulower text) x) denylist
                   then Inr (insert (str_strip text) texts)
                   else Inr texts)
                else Inr texts)
          else Inr texts)"

definition text_step :: "(str \<Rightarrow> str) \<Rightarrow> bytes \<Rightarrow> int \<Rightarrow> str set \<Rightarrow> str set" where
  "text_step ulower data pos texts =
     (case text_body ulower data pos texts of Inl e \<Rightarrow> texts | Inr texts' \<Rightarrow> texts')"

definition extract_text :: "(str \<Rightarrow> str) \<Rightarrow> bytes \<Rightarrow> error + str list" where
  "extract_text ulower data =
     (let marker = ''+8ftU'';
          positions = find_all data marker;
          texts = fold (text_step ulower data) positions {}
      in Inr (sorted_list_of_set texts))"

section \<open>Font names\<close>

text \<open>Indexing \<open>data[i]\<close> raises \<open>IndexError\<close> out of range.\<close>

definition bytes_index :: "bytes \<Rightarrow> int \<Rightarrow> error + char" where
  "bytes_index data i =
     (let n = int (length data); j = (if i < 0 then i + n else i)
      in if 0 \<le> j \<and> j < n then Inr (data ! nat j) else Inl IndexError)"

function fonts_walk :: "bytes \<Rightarrow> int \<Rightarrow> error + int" where
  "fonts_walk data start =
     (if 0 < start then
        (case bytes_index data start of
           Inl e \<Rightarrow> Inl e
         | Inr b \<Rightarrow>
             if latin1_isalnum (of_char b) \<or> b \<in> set ''-_''
             then fonts_walk data (start - 1)
             else Inr start)
      else Inr start)"
  by pat_completeness auto
termination
  by (relation "measure (\<lambda>(data, start). nat start)") auto

declare fonts_walk.simps [simp del]

definition fonts_step :: "bytes \<Rightarrow> int \<Rightarrow> str set \<Rightarrow> error + str set" where
  "fonts_step data pos fonts =
     (case fonts_walk data (pos - 1) of
        Inl e \<Rightarrow> Inl e
      | Inr start \<Rightarrow>
          (let font = ascii_decode_ignore (slice data (start + 1) pos)
           in if font \<noteq> [] then Inr (insert font fonts) else Inr fonts))"

definition extract_fonts :: "bytes \<Rightarrow> error + str list" where
  "extract_fonts data =
     (let marker = ''+ymaF'';
          positions = find_all data marker
      in case for_each (fonts_step data) positions {} of
           Inl e \<Rightarrow> Inl e
         | Inr fonts \<Rightarrow> Inr (sorted_list_of_set fonts))"

section \<open>Bounding boxes\<close>

text \<open>
  The program reads doubles with \<open>struct.unpack\<close>, subtracts them and rounds them with
  \<open>round\<close>. These three primitives of the platform are parameters: the decoding of
  eight little-endian bytes, the subtraction, and \<open>round\<close>, which raises on a NaN or an
  infinity. Everything proved below holds for every choice of them.
\<close>

record 'f float_ops =
  f64_of_bytes :: "bytes \<Rightarrow> 'f"
  f_sub :: "'f \<Rightarrow> 'f \<Rightarrow> 'f"
  f_round :: "'f \<Rightarrow> error + int"

text \<open>\<open>struct.unpack('<4d', bs)\<close>: exactly 32 bytes, four doubles.\<close>

definition unpack_4d :: "'f float_ops \<Rightarrow> bytes \<Rightarrow> error + ('f \<times> 'f \<times> 'f \<times> 'f)" where
  "unpack_4d ops bs =
     (if length bs \<noteq> 32 then Inl StructError
      else Inr (f64_of_bytes ops (take 8 bs),
                f64_of_bytes ops (take 8 (drop 8 bs)),
                f64_of_bytes ops (take 8 (drop 16 bs)),
                f64_of_bytes ops (take 8 (drop 24 bs))))"

record box =
  width :: int
  height :: int
  x :: int
  y :: int

type_synonym bounds_state = "box list \<times> (int \<times> int \<times> int \<times> int) set"

text \<open>
  The body of the \<open>try\<close> block for one occurrence, on the pair of the list \<open>bounds\<close> and
  the set \<open>seen\<close>. The two updates are adjacent and \<open>round\<close> is a function of its
  argument, so an exception never leaves one of them done without the other.
\<close>

definition bounds_body :: "'f float_ops \<Rightarrow> bytes \<Rightarrow> int \<Rightarrow> bounds_state \<Rightarrow> error + bounds_state" where
  "bounds_body ops data pos st =
     (case unpack_4d ops (slice data (pos + 4) (pos + 36)) of
        Inl e \<Rightarrow> Inl e
      | Inr (x1, y1, x2, y2) \<Rightarrow>
     (case f_round ops (f_sub ops x2 x1) of
        Inl e \<Rightarrow> Inl e
      | Inr w \<Rightarrow>
     (case f_round ops (f_sub ops y2 y1) of
        Inl e \<Rightarrow> Inl e
      | Inr h \<Rightarrow>
          if 0 < w \<and> w < 10000 \<and> 0 < h \<and> h < 10000 then
            (case f_round ops x1 of
               Inl e \<Rightarrow> Inl e
             | Inr rx \<Rightarrow>
            (case f_round ops y1 of
               Inl e \<Rightarrow> Inl e
             | Inr ry \<Rightarrow>
                 (let key = (w, h, rx, ry)
                  in if key \<notin> snd st
                     then Inr (fst st @ [\<lparr>width = w, height = h, x = rx, y = ry\<rparr>],
                               insert key (snd st))
                     else Inr st)))
          else Inr st)))"

definition bounds_step :: "'f float_ops \<Rightarrow> bytes \<Rightarrow> int \<Rightarrow> bounds_state \<Rightarrow> bounds_state" where
  "bounds_step ops data pos st =
     (case bounds_body ops data pos st of Inl e \<Rightarrow> st | Inr st' \<Rightarrow> st')"

definition area :: "box \<Rightarrow> int" where
  "area b = width b * height b"

text \<open>
  \<open>sorted(bounds, key=area, reverse=True)\<close> is stable: boxes of equal area keep their
  order. That is the stable sort on the negated key.
\<close>

definition extract_bounds :: "'f float_ops \<Rightarrow> bytes \<Rightarrow> error + box list" where
  "extract_bounds ops data =
     (let marker = ''BphS'';
          positions = find_all data marker;
          bounds = fst (fold (bounds_step ops data) positions ([], {}))
      in Inr (sort_key (\<lambda>b. - area b) bounds))"

section \<open>Metadata\<close>

text \<open>
  The file system is a partial map from paths to contents; opening a missing file
  raises. \<open>json.loads\<close> is a parameter: it returns the parsed value or raises.
\<close>

type_synonym files = "string \<Rightarrow> bytes option"

definition document_prefix :: bytes where
  "document_prefix = CHR ''{'' # CHR 0x22 # ''document'' @ [CHR 0x22]"

definition metadata_of :: "(bytes \<Rightarrow> error + 'j) \<Rightarrow> bytes \<Rightarrow> 'j option" where
  "metadata_of json_loads raw =
     (let start = bytes_find raw document_prefix 0
      in if start \<noteq> - 1 then
           (let end = bytes_find raw ''}}'' start + 2
            in case json_loads (slice raw start end) of
                 Inl e \<Rightarrow> None
               | Inr obj \<Rightarrow> Some obj)
         else None)"

definition extract_metadata :: "(bytes \<Rightarrow> error + 'j) \<Rightarrow> files \<Rightarrow> string \<Rightarrow> error + 'j option" where
  "extract_metadata json_loads fs af_path =
     (case fs af_path of
        None \<Rightarrow> Inl OSError
      | Some raw \<Rightarrow> Inr (metadata_of json_loads raw))"

section \<open>The report\<close>

record 'j report =
  source :: string
  metadata :: "'j option"
  layers :: "str list"
  text_content :: "str list"
  fonts :: "str list"
  element_sizes :: "box list"

text \<open>
  The platform of a run: the float primitives, the Unicode lower-casing, \<open>json.loads\<close>,
  and the external decompression step \<open>extract_zstd_data\<close>, which gives the stream of a
  file, nothing, or raises.
\<close>

record ('f, 'j) platform =
  floats :: "'f float_ops"
  ulower :: "str \<Rightarrow> str"
  json_loads :: "bytes \<Rightarrow> error + 'j"
  extract_zstd_data :: "string \<Rightarrow> error + bytes option"

text \<open>The dictionary \<open>result\<close> of \<open>main\<close>; its entries are evaluated in order.\<close>

definition assemble :: "('f, 'j) platform \<Rightarrow> string \<Rightarrow> 'j option \<Rightarrow> bytes \<Rightarrow> error + 'j report" where
  "assemble pf src md data =
     (case extract_text (ulower pf) data of
        Inl e \<Rightarrow> Inl e
      | Inr texts \<Rightarrow>
     (case extract_fonts data of
        Inl e \<Rightarrow> Inl e
      | Inr fnts \<Rightarrow>
     (case extract_bounds (floats pf) data of
        Inl e \<Rightarrow> Inl e
      | Inr bounds \<Rightarrow>
          Inr \<lparr>source = src, metadata = md, layers = extract_layers data,
               text_content = texts, fonts = fnts, element_sizes = take 30 bounds\<rparr>)))"

text \<open>
  A run of \<open>main\<close> ends with \<open>sys.exit\<close>, with an uncaught exception, or with the report
  written to the output path (or printed when there is none).
\<close>

datatype 'j outcome = Exit int | Raised error | Written "string option" "'j report"

definition finish :: "string option \<Rightarrow> error + 'j report \<Rightarrow> 'j outcome" where
  "finish output_path r = (case r of Inl e \<Rightarrow> Raised e | Inr rep \<Rightarrow> Written output_path rep)"

definition main :: "('f, 'j) platform \<Rightarrow> files \<Rightarrow> string list \<Rightarrow> 'j outcome" where
  "main pf fs argv =
     (if length argv < 2 then Exit 1
      else if argv ! 1 = ''--from-bin'' then
        (if length argv < 3 then Exit 1
         else
           (let bin_path = argv ! 2;
                output_path = (if 3 < length argv then Some (argv ! 3) else None)
            in case fs bin_path of
                 None \<Rightarrow> Raised OSError
               | Some data \<Rightarrow> finish output_path (assemble pf bin_path None data)))
      else
        (let af_path = argv ! 1;
             output_path = (if 2 < length argv then Some (argv ! 2) else None)
         in if fs af_path = None then Exit 1
            else
              (case extract_metadata (json_loads pf) fs af_path of
                 Inl e \<Rightarrow> Raised e
               | Inr md \<Rightarrow>
              (case extract_zstd_data pf af_path of
                 Inl e \<Rightarrow> Raised e
               | Inr None \<Rightarrow> Exit 1
               | Inr (Some data) \<Rightarrow>
                   if data = [] then Exit 1
                   else finish output_path (assemble pf af_path md data)))))"

section \<open>IEEE 754 binary64\<close>

text \<open>
  One instance of the float primitives, used to run the extractor on concrete buffers:
  a finite double is \<open>m * 2 ^ e\<close> with integers \<open>m\<close> and \<open>e\<close>; subtraction rounds the exact
  difference to 53 bits, ties to even, and overflows to an infinity (a zero operand
  leaves the other one exact); \<open>round\<close> is round-half-to-even.
\<close>

datatype f64 = Finite int int | Infinite bool | NaN

definition le_value :: "bytes \<Rightarrow> int" where
  "le_value bs = foldr (\<lambda>b acc. of_char b + 0x100 * acc) bs 0"

definition ieee_of_bytes :: "bytes \<Rightarrow> f64" where
  "ieee_of_bytes bs =
     (let n = le_value bs;
          neg = (n div 2 ^ 63 = 1);
          ex = (n div 2 ^ 52) mod 2048;
          frac = n mod 2 ^ 52;
          sg = (if neg then - 1 else 1)
      in if ex = 2047 then (if frac = 0 then Infinite neg else NaN)
         else if ex = 0 then Finite (sg * frac) (- 1074)
         else Finite (sg * (2 ^ 52 + frac)) (ex - 1075))"

function bit_length :: "int \<Rightarrow> nat" where
  "bit_length n = (if n \<le> 0 then 0 else Suc (bit_length (n div 2)))"
  by pat_completeness auto
termination
  by (relation "measure nat") auto

declare bit_length.simps [simp del]

definition ieee_round53 :: "int \<Rightarrow> int \<Rightarrow> f64" where
  "ieee_round53 m e =
     (let a = \<bar>m\<bar>
      in if a < 2 ^ 53 then Finite m e
         else
           (let k = bit_length a - 53;
                q0 = a div 2 ^ k;
                r = a mod 2 ^ k;
                half = 2 ^ (k - 1);
                q = (if half < r \<or> (r = half \<and> odd q0) then q0 + 1 else q0)
            in if 0 \<le> e + int k \<and> 2 ^ 1024 \<le> q * 2 ^ nat (e + int k) then Infinite (m < 0)
               else Finite ((if m < 0 then - 1 else 1) * q) (e + int k)))"

fun ieee_sub :: "f64 \<Rightarrow> f64 \<Rightarrow> f64" where
  "ieee_sub NaN _ = NaN"
| "ieee_sub _ NaN = NaN"
| "ieee_sub (Infinite s) (Infinite t) = (if s = t then NaN else Infinite s)"
| "ieee_sub (Infinite s) (Finite _ _) = Infinite s"
| "ieee_sub (Finite _ _) (Infinite t) = Infinite (\<not> t)"
| "ieee_sub (Finite m1 e1) (Finite m2 e2) =
     (if m2 = 0 then Finite m1 e1
      else if m1 = 0 then Finite (- m2) e2
      else
        (let e = min e1 e2
         in ieee_round53 (m1 * 2 ^ nat (e1 - e) - m2 * 2 ^ nat (e2 - e)) e))"

fun ieee_round :: "f64 \<Rightarrow> error + int" where
  "ieee_round NaN = Inl ValueError"
| "ieee_round (Infinite _) = Inl OverflowError"
| "ieee_round (Finite m e) =
     (if m = 0 then Inr 0
      else if 0 \<le> e then Inr (m * 2 ^ nat e)
      else
        (let d = 2 ^ nat (- e); q = m div d; r = m mod d
         in if d < 2 * r \<or> (2 * r = d \<and> odd q) then Inr (q + 1) else Inr q))"

definition ieee754 :: "f64 float_ops" where
  "ieee754 = \<lparr>f64_of_bytes = ieee_of_bytes, f_sub = ieee_sub, f_round = ieee_round\<rparr>"

text \<open>The marker \<open>pat\<close> occurs in \<open>data\<close> at offset \<open>i\<close>.\<close>

definition occurs_at :: "bytes \<Rightarrow> bytes \<Rightarrow> int \<Rightarrow> bool" where
  "occurs_at data pat i \<longleftrightarrow> take (length pat) (drop (nat i) data) = pat"

section \<open>Properties of the marker scanner\<close>


lemma find_sub_None:
  "find_sub xs pat = None \<longleftrightarrow> (\<forall>i\<le>length xs. take (length pat) (drop i xs) \<noteq> pat)"
proof (induction xs)
  case Nil
  then show ?case by auto
next
  case (Cons x xs)
  show ?case
  proof (cases "take (length pat) (x # xs) = pat")
    case True
    then show ?thesis by (auto intro: exI [of _ 0])
  next
    case False
    have "(\<forall>i\<le>length (x # xs). take (length pat) (drop i (x # xs)) \<noteq> pat)
          \<longleftrightarrow> (\<forall>i\<le>length xs. take (length pat) (drop i xs) \<noteq> pat)"
      (is "?L \<longleftrightarrow> ?R")
    proof
      assume l: ?L
      show ?R
      proof (intro allI impI)
        fix i assume "i \<le> length xs"
        with l [rule_format, of "Suc i"] show "take (length pat) (drop i xs) \<noteq> pat" by simp
      qed
    next
      assume r: ?R
      show ?L
      proof (intro allI impI)
        fix i assume i: "i \<le> length (x # xs)"
        show "take (length pat) (drop i (x # xs)) \<noteq> pat"
        proof (cases i)
          case 0
          with False show ?thesis by simp
        next
          case (Suc j)
          with i r [rule_format, of j] show ?thesis by simp
        qed
      qed
    qed
    with False Cons.IH show ?thesis by simp
  qed
qed

lemma find_sub_Some:
  "find_sub xs pat = Some i \<Longrightarrow>
     take (length pat) (drop i xs) = pat \<and> (\<forall>j<i. take (length pat) (drop j xs) \<noteq> pat)"
proof (induction xs arbitrary: i)
  case Nil
  then show ?case by (auto split: if_splits)
next
  case (Cons x xs)
  show ?case
  proof (cases "take (length pat) (x # xs) = pat")
    case True
    with Cons.prems show ?thesis by simp
  next
    case False
    with Cons.prems obtain k where k: "find_sub xs pat = Some k" and i: "i = Suc k"
      by auto
    from Cons.IH [OF k] have a: "take (length pat) (drop k xs) = pat"
      and b: "\<forall>j<k. take (length pat) (drop j xs) \<noteq> pat" by auto
    have "\<forall>j<Suc k. take (length pat) (drop j (x # xs)) \<noteq> pat"
    proof (intro allI impI)
      fix j assume j: "j < Suc k"
      show "take (length pat) (drop j (x # xs)) \<noteq> pat"
      proof (cases j)
        case 0
        with False show ?thesis by simp
      next
        case (Suc m)
        with j b show ?thesis by simp
      qed
    qed
    with a i show ?thesis by simp
  qed
qed

lemma bytes_find_none:
  assumes "0 \<le> pos" "bytes_find data pat pos = - 1"
  shows "filter (occurs_at data pat) [pos..int (length data)] = []"
proof (cases "pos \<le> int (length data)")
  case False
  then show ?thesis by simp
next
  case True
  with assms have n: "find_sub (drop (nat pos) data) pat = None"
    by (auto simp: bytes_find_def Let_def split: option.splits if_splits)
  have "\<not> occurs_at data pat i" if i: "i \<in> set [pos..int (length data)]" for i
  proof -
    from i assms have "nat i - nat pos \<le> length (drop (nat pos) data)" by auto
    from n [unfolded find_sub_None, rule_format, OF this]
    have "take (length pat) (drop (nat i - nat pos + nat pos) data) \<noteq> pat" by simp
    moreover from i assms have "nat i - nat pos + nat pos = nat i" by auto
    ultimately show ?thesis by (simp add: occurs_at_def)
  qed
  then show ?thesis by (simp add: filter_empty_conv)
qed

lemma bytes_find_some:
  assumes "0 \<le> pos" "bytes_find data pat pos = r" "r \<noteq> - 1"
  shows "filter (occurs_at data pat) [pos..int (length data)]
         = r # filter (occurs_at data pat) [r + 1..int (length data)]"
proof -
  from assms bytes_find_range [of data pat pos]
  have range: "pos \<le> r" "r \<le> int (length data)" by auto
  from assms range obtain i where i: "find_sub (drop (nat pos) data) pat = Some i"
    and r: "r = pos + int i"
    by (auto simp: bytes_find_def Let_def split: option.splits if_splits)
  from find_sub_Some [OF i] have hit: "take (length pat) (drop (i + nat pos) data) = pat"
    and miss: "\<forall>j<i. take (length pat) (drop (j + nat pos) data) \<noteq> pat" by auto
  have occ: "occurs_at data pat r"
    using hit r assms(1) by (simp add: occurs_at_def nat_add_distrib add.commute)
  have "\<not> occurs_at data pat k" if k: "k \<in> set [pos..r - 1]" for k
  proof -
    from k r assms(1) have "nat k - nat pos < i" by auto
    from miss [rule_format, OF this] have "take (length pat) (drop (nat k - nat pos + nat pos) data) \<noteq> pat" .
    moreover from k assms(1) have "nat k - nat pos + nat pos = nat k" by auto
    ultimately show ?thesis
      by (simp add: occurs_at_def)
  qed
  then have none: "filter (occurs_at data pat) [pos..r - 1] = []"
    by (simp add: filter_empty_conv)
  have "[pos..int (length data)] = [pos..r - 1] @ r # [r + 1..int (length data)]"
    using range by (rule upto_split3)
  then show ?thesis using none occ by simp
qed

lemma find_all_loop_filter:
  "0 \<le> pos \<Longrightarrow>
   find_all_loop data pat pos acc = acc @ filter (occurs_at data pat) [pos..int (length data)]"
proof (induction data pat pos acc rule: find_all_loop.induct)
  case (1 data pattern pos positions)
  show ?case
  proof (cases "bytes_find data pattern pos = - 1")
    case True
    with bytes_find_none [OF "1.prems" True] show ?thesis
      by (subst find_all_loop.simps) simp
  next
    case False
    from bytes_find_range [OF False] "1.prems"
    have "0 \<le> bytes_find data pattern pos + 1" by simp
    from "1.IH" [OF False this] bytes_find_some [OF "1.prems" refl False] False
    show ?thesis by (subst find_all_loop.simps) simp
  qed
qed

lemma slice_occurs:
  "0 \<le> off \<Longrightarrow> slice data off (off + int (length pat)) = take (length pat) (drop (nat off) data)"
  by (auto simp: slice_def slice_index_def Let_def min_def nat_add_distrib)

lemma find_all_filter:
  "find_all data pat = filter (occurs_at data pat) [0..int (length data)]"
  by (simp only: find_all_def find_all_loop_filter [OF order_refl] append_Nil)

text \<open>
  Claim C1. For a non-empty marker \<open>M\<close>, the offsets returned by \<open>find_all B M\<close> are
  strictly increasing; at each of them the slice \<open>B[off : off + len M]\<close> equals \<open>M\<close>;
  every offset at which \<open>M\<close> occurs is returned, overlapping occurrences included; and
  the result is empty when \<open>M\<close> occurs nowhere in \<open>B\<close>.
\<close>

theorem find_all_spec:
  assumes "M \<noteq> []"
  shows "sorted_wrt (<) (find_all B M)
       \<and> (\<forall>off\<in>set (find_all B M). 0 \<le> off \<and> slice B off (off + int (length M)) = M)
       \<and> (\<forall>off. 0 \<le> off \<and> slice B off (off + int (length M)) = M \<longrightarrow> off \<in> set (find_all B M))
       \<and> ((\<forall>off. 0 \<le> off \<longrightarrow> slice B off (off + int (length M)) \<noteq> M) \<longrightarrow> find_all B M = [])"
proof -
  have mem: "off \<in> set (find_all B M) \<longleftrightarrow> 0 \<le> off \<and> slice B off (off + int (length M)) = M" for off
  proof (cases "0 \<le> off")
    case False
    then show ?thesis by (simp add: find_all_filter)
  next
    case True
    have "occurs_at B M off \<Longrightarrow> off \<le> int (length B)"
      using assms by (cases "off \<le> int (length B)") (auto simp: occurs_at_def)
    with True show ?thesis
      by (auto simp: find_all_filter slice_occurs occurs_at_def)
  qed
  have "sorted_wrt (<) (find_all B M)"
    unfolding find_all_filter by (rule sorted_wrt_filter) (rule sorted_wrt_upto)
  moreover have "(\<forall>off. 0 \<le> off \<longrightarrow> slice B off (off + int (length M)) \<noteq> M) \<longrightarrow> find_all B M = []"
  proof
    assume "\<forall>off. 0 \<le> off \<longrightarrow> slice B off (off + int (length M)) \<noteq> M"
    with mem have "\<forall>off. off \<notin> set (find_all B M)" by blast
    then show "find_all B M = []" by (cases "find_all B M") auto
  qed
  ultimately show ?thesis using mem by blast
qed

theorem find_all_spec_witness:
  "sorted_wrt (<) (find_all ''abababa-aba'' ''aba'')
   \<and> find_all ''abababa-aba'' ''aba'' = [0, 2, 4, 8]
   \<and> find_all ''abababa-aba'' ''abc'' = []"
proof -
  have m: "''aba'' \<noteq> []" by simp
  have e: "find_all ''abababa-aba'' ''aba'' = [0, 2, 4, 8]" by code_simp
  have n: "find_all ''abababa-aba'' ''abc'' = []" by code_simp
  from find_all_spec [OF m, of "''abababa-aba''"] have "sorted_wrt (<) (find_all ''abababa-aba'' ''aba'')"
    by (rule conjunct1)
  with e n show ?thesis by (simp only: simp_thms)
qed

section \<open>Loops that collect into a set\<close>

lemma fold_union_steps:
  assumes "\<And>p S. f p S = S \<union> f p {}"
  shows "fold f ps S = S \<union> (\<Union>p\<in>set ps. f p {})"
proof (induction ps arbitrary: S)
  case Nil
  then show ?case by simp
next
  case (Cons p ps)
  have "fold f (p # ps) S = fold f ps (f p S)" by simp
  also have "\<dots> = f p S \<union> (\<Union>q\<in>set ps. f q {})" by (rule Cons.IH)
  also have "\<dots> = (S \<union> f p {}) \<union> (\<Union>q\<in>set ps. f q {})" using assms [of p S] by simp
  finally show ?case by auto
qed

lemma for_each_union:
  assumes "\<And>p. p \<in> set ps \<Longrightarrow> \<exists>C. \<forall>S. f p S = Inr (S \<union> C)"
  shows "for_each f ps S = Inr (S \<union> (\<Union>p\<in>set ps. projr (f p {})))"
  using assms
proof (induction ps arbitrary: S)
  case Nil
  then show ?case by simp
next
  case (Cons p ps)
  from Cons.prems [of p] obtain C where c: "\<forall>S. f p S = Inr (S \<union> C)" by auto
  from c have c0: "projr (f p {}) = C" by simp
  from c have cs: "f p S = Inr (S \<union> C)" by simp
  have "for_each f ps (S \<union> C) = Inr ((S \<union> C) \<union> (\<Union>q\<in>set ps. projr (f q {})))"
    by (rule Cons.IH) (simp add: Cons.prems)
  then have "for_each f (p # ps) S = Inr ((S \<union> C) \<union> (\<Union>q\<in>set ps. projr (f q {})))"
    by (simp add: cs)
  also have "(S \<union> C) \<union> (\<Union>q\<in>set ps. projr (f q {})) = S \<union> (\<Union>q\<in>set (p # ps). projr (f q {}))"
    using c0 by auto
  finally show ?case .
qed

lemma find_all_range:
  assumes "pos \<in> set (find_all data pat)"
  shows "0 \<le> pos" and "pos \<le> int (length data)" and "occurs_at data pat pos"
  using assms by (simp_all add: find_all_filter)

section \<open>Layer names\<close>

lemma layers_step_union: "layers_step data pos S = S \<union> layers_step data pos {}"
  by (simp add: layers_step_def Let_def)

lemma layers_step_finite: "finite (layers_step data pos {})"
  by (simp add: layers_step_def Let_def)

lemma layers_step_long: "n \<in> layers_step data pos {} \<Longrightarrow> 1 < length n"
  by (simp add: layers_step_def Let_def split: if_splits)

lemma fold_layers:
  "fold (layers_step data) ps {} = (\<Union>p\<in>set ps. layers_step data p {})"
  using fold_union_steps [of "layers_step data" ps "{}", OF layers_step_union] by simp

lemma set_extract_layers:
  "set (extract_layers data) = (\<Union>p\<in>set (find_all data ''1CgaT''). layers_step data p {})"
  by (simp add: extract_layers_def Let_def fold_layers layers_step_finite)

lemma lex_sorted_list_of_set:
  fixes A :: "str set"
  shows "sorted_wrt (\<lambda>a b. (a, b) \<in> lexord {(u, v). u < v}) (sorted_list_of_set A)"
proof -
  have "sorted_wrt (<) (sorted_list_of_set A)" by (rule strict_sorted_list_of_set)
  then show ?thesis by (rule sorted_wrt_mono_rel [rotated]) (simp add: list_less_def)
qed


section \<open>Font names\<close>

lemma fonts_walk_total:
  "start < int (length data) \<Longrightarrow> \<exists>s. fonts_walk data start = Inr s \<and> (0 \<le> start \<longrightarrow> 0 \<le> s)"
proof (induction data start rule: fonts_walk.induct)
  case (1 data start)
  show ?case
  proof (cases "0 < start")
    case False
    then show ?thesis by (subst fonts_walk.simps) simp
  next
    case True
    with "1.prems" have ix: "bytes_index data start = Inr (data ! nat start)"
      by (simp add: bytes_index_def)
    show ?thesis
    proof (cases "latin1_isalnum (of_char (data ! nat start)) \<or> data ! nat start \<in> set ''-_''")
      case False
      with True ix show ?thesis by (subst fonts_walk.simps) simp
    next
      case c: True
      from "1.prems" have "start - 1 < int (length data)" by simp
      from "1.IH" [OF True ix c this] True obtain s
        where "fonts_walk data (start - 1) = Inr s" "0 \<le> s" by auto
      with True ix c show ?thesis by (subst fonts_walk.simps) auto
    qed
  qed
qed

lemma fonts_step_contrib:
  assumes "pos \<in> set (find_all data pat)"
  shows "\<exists>C. finite C \<and> (\<forall>f\<in>C. f \<noteq> []) \<and> (\<forall>S. fonts_step data pos S = Inr (S \<union> C))"
proof -
  from find_all_range [OF assms] have "pos - 1 < int (length data)" by simp
  from fonts_walk_total [OF this] obtain s where s: "fonts_walk data (pos - 1) = Inr s" by auto
  let ?font = "ascii_decode_ignore (slice data (s + 1) pos)"
  let ?C = "if ?font \<noteq> [] then {?font} else {}"
  have "finite ?C" and "\<forall>f\<in>?C. f \<noteq> []" by simp_all
  moreover have "\<forall>S. fonts_step data pos S = Inr (S \<union> ?C)"
    by (simp add: fonts_step_def Let_def s)
  ultimately show ?thesis by blast
qed

lemma fonts_step_projr:
  assumes "pos \<in> set (find_all data pat)"
  shows "finite (projr (fonts_step data pos {}))"
    and "\<forall>f\<in>projr (fonts_step data pos {}). f \<noteq> []"
proof -
  from fonts_step_contrib [OF assms] obtain C where "finite C" "\<forall>f\<in>C. f \<noteq> []"
    and "\<forall>S. fonts_step data pos S = Inr (S \<union> C)" by blast
  then have "projr (fonts_step data pos {}) = C" by simp
  with \<open>finite C\<close> \<open>\<forall>f\<in>C. f \<noteq> []\<close>
  show "finite (projr (fonts_step data pos {}))"
    and "\<forall>f\<in>projr (fonts_step data pos {}). f \<noteq> []" by simp_all
qed

lemma extract_fonts_eq:
  "extract_fonts data =
     Inr (sorted_list_of_set (\<Union>p\<in>set (find_all data ''+ymaF''). projr (fonts_step data p {})))"
proof -
  let ?ps = "find_all data ''+ymaF''"
  have "for_each (fonts_step data) ?ps {}
        = Inr ({} \<union> (\<Union>p\<in>set ?ps. projr (fonts_step data p {})))"
  proof (rule for_each_union)
    fix p assume "p \<in> set ?ps"
    from fonts_step_contrib [OF this]
    show "\<exists>C. \<forall>S. fonts_step data p S = Inr (S \<union> C)" by blast
  qed
  then show ?thesis by (simp add: extract_fonts_def Let_def)
qed

text \<open>
  Claim C7. Every layer name returned has more than one character, every font name
  returned is non-empty, and both lists are strictly increasing in the lexicographic
  order on code points: sorted and free of duplicates.
\<close>

theorem names_invariant:
  "(\<forall>n\<in>set (extract_layers data). 1 < length n)
   \<and> sorted_wrt (\<lambda>a b. (a, b) \<in> lexord {(u, v). u < v}) (extract_layers data)
   \<and> sorted (extract_layers data) \<and> distinct (extract_layers data)
   \<and> (\<exists>fs. extract_fonts data = Inr fs
          \<and> (\<forall>f\<in>set fs. f \<noteq> [])
          \<and> sorted_wrt (\<lambda>a b. (a, b) \<in> lexord {(u, v). u < v}) fs
          \<and> sorted fs \<and> distinct fs)"
proof -
  have l1: "\<forall>n\<in>set (extract_layers data). 1 < length n"
    by (auto simp: set_extract_layers dest: layers_step_long)
  have l2: "sorted_wrt (\<lambda>a b. (a, b) \<in> lexord {(u, v). u < v}) (extract_layers data)"
    by (simp add: extract_layers_def Let_def lex_sorted_list_of_set)
  have l3: "sorted (extract_layers data) \<and> distinct (extract_layers data)"
    by (simp add: extract_layers_def Let_def)
  let ?F = "\<Union>p\<in>set (find_all data ''+ymaF''). projr (fonts_step data p {})"
  have fin: "finite ?F" by (rule finite_UN_I) (simp_all add: fonts_step_projr(1))
  have ne: "\<forall>f\<in>?F. f \<noteq> []" using fonts_step_projr(2) by blast
  have f1: "\<forall>f\<in>set (sorted_list_of_set ?F). f \<noteq> []" using fin ne by simp
  have f2: "sorted_wrt (\<lambda>a b. (a, b) \<in> lexord {(u, v). u < v}) (sorted_list_of_set ?F)"
    by (rule lex_sorted_list_of_set)
  have f3: "sorted (sorted_list_of_set ?F) \<and> distinct (sorted_list_of_set ?F)" by simp
  from l1 l2 l3 f1 f2 f3 show ?thesis unfolding extract_fonts_eq by blast
qed

theorem names_invariant_witness:
  "extract_layers ''xMyLayer1CgaT, a b 1CgaT,A1CgaT,MyLayer1CgaT'' = [ascii ''MyLayer'', ascii ''a b'']
   \<and> extract_fonts ''MyFont+ymaF Arial-Bold+ymaF,+ymaF MyFont+ymaF''
       = Inr [ascii ''Arial-Bold'', ascii ''MyFont'', ascii ''yFont'']
   \<and> list_all (\<lambda>n. 1 < length n) (extract_layers ''xMyLayer1CgaT, a b 1CgaT,A1CgaT,MyLayer1CgaT'')
   \<and> distinct (extract_layers ''xMyLayer1CgaT, a b 1CgaT,A1CgaT,MyLayer1CgaT'')"
proof -
  have a: "extract_layers ''xMyLayer1CgaT, a b 1CgaT,A1CgaT,MyLayer1CgaT''
           = [ascii ''MyLayer'', ascii ''a b'']" by code_simp
  have b: "extract_fonts ''MyFont+ymaF Arial-Bold+ymaF,+ymaF MyFont+ymaF''
           = Inr [ascii ''Arial-Bold'', ascii ''MyFont'', ascii ''yFont'']" by code_simp
  note inv = names_invariant [of "''xMyLayer1CgaT, a b 1CgaT,A1CgaT,MyLayer1CgaT''"]
  from inv have "\<forall>n\<in>set (extract_layers ''xMyLayer1CgaT, a b 1CgaT,A1CgaT,MyLayer1CgaT''). 1 < length n"
    by (rule conjunct1)
  then have c: "list_all (\<lambda>n. 1 < length n) (extract_layers ''xMyLayer1CgaT, a b 1CgaT,A1CgaT,MyLayer1CgaT'')"
    by (simp only: list_all_iff)
  from inv have d: "distinct (extract_layers ''xMyLayer1CgaT, a b 1CgaT,A1CgaT,MyLayer1CgaT'')"
    by blast
  from a b c d show ?thesis by (simp only: simp_thms)
qed

text \<open>
  Claim C2. On the buffer \<open>MyLayer1CgaT\<close> the marker is found at offset 7, the walk
  stops at index 0 without taking the byte there, and the name extracted is
  \<open>yLayer\<close>: the name \<open>MyLayer\<close> is not in the result.
\<close>

theorem extract_layers_MyLayer:
  "find_all ''MyLayer1CgaT'' ''1CgaT'' = [7]
   \<and> layers_walk ''MyLayer1CgaT'' 6 = 0
   \<and> extract_layers ''MyLayer1CgaT'' = [ascii ''yLayer'']
   \<and> ascii ''MyLayer'' \<notin> set (extract_layers ''MyLayer1CgaT'')"
  by code_simp

section \<open>The first byte of the buffer\<close>

lemma slice_tl:
  assumes "1 \<le> lo" "1 \<le> hi"
  shows "slice xs lo hi = slice (tl xs) (lo - 1) (hi - 1)"
proof (cases xs)
  case Nil
  then show ?thesis by (simp add: slice_def)
next
  case (Cons a as)
  from assms obtain l where l: "nat lo = Suc l" by (cases "nat lo") auto
  from assms obtain h where h: "nat hi = Suc h" by (cases "nat hi") auto
  from assms l h have l': "nat (lo - 1) = l" and h': "nat (hi - 1) = h" by auto
  from assms Cons l h l' h' show ?thesis
    by (simp add: slice_def slice_index_def Let_def)
qed

lemma slice_Cons_indep:
  assumes "1 \<le> lo" "1 \<le> hi"
  shows "slice (b # rest) lo hi = slice (b' # rest) lo hi"
  using slice_tl [OF assms, of "b # rest"] slice_tl [OF assms, of "b' # rest"] by simp

lemma layers_walk_nonneg: "0 \<le> s \<Longrightarrow> 0 \<le> layers_walk data s"
proof (induction data s rule: layers_walk.induct)
  case (1 data start)
  show ?case
  proof (cases "0 < start \<and> (bytes_isalnum (slice data start (start + 1))
                     \<or> slice data start (start + 1) \<in> set [''_'', '' '', ''-'', ''.''])")
    case True
    then have "0 \<le> start - 1" by simp
    from "1.IH" [OF True this] True show ?thesis by (subst layers_walk.simps) simp
  next
    case False
    with "1.prems" show ?thesis by (subst layers_walk.simps) auto
  qed
qed

lemma layers_walk_indep: "layers_walk (b # rest) s = layers_walk (b' # rest) s"
proof (induction "b # rest" s rule: layers_walk.induct)
  case (1 start)
  let ?c = "\<lambda>d. 0 < start \<and> (bytes_isalnum (slice d start (start + 1))
                     \<or> slice d start (start + 1) \<in> set [''_'', '' '', ''-'', ''.''])"
  have same: "0 < start \<Longrightarrow> slice (b # rest) start (start + 1) = slice (b' # rest) start (start + 1)"
    by (rule slice_Cons_indep) simp_all
  then have c: "?c (b # rest) \<longleftrightarrow> ?c (b' # rest)" by auto
  show ?case
  proof (cases "?c (b # rest)")
    case True
    from "1.hyps" [OF True] have ih: "layers_walk (b # rest) (start - 1) = layers_walk (b' # rest) (start - 1)" .
    have l: "layers_walk (b # rest) start = layers_walk (b # rest) (start - 1)"
      using True by (subst layers_walk.simps) simp
    have r: "layers_walk (b' # rest) start = layers_walk (b' # rest) (start - 1)"
      using True c by (subst layers_walk.simps) simp
    from l r ih show ?thesis by simp
  next
    case False
    have l: "layers_walk (b # rest) start = start"
      using False by (subst layers_walk.simps) auto
    have r: "layers_walk (b' # rest) start = start"
      using False c by (subst layers_walk.simps) auto
    from l r show ?thesis by simp
  qed
qed

lemma layers_step_indep:
  assumes "1 \<le> pos"
  shows "layers_step (b # rest) pos S = layers_step (b' # rest) pos S"
proof -
  from assms have "0 \<le> layers_walk (b' # rest) (pos - 1)" by (simp add: layers_walk_nonneg)
  then have "slice (b # rest) (layers_walk (b' # rest) (pos - 1) + 1) pos
           = slice (b' # rest) (layers_walk (b' # rest) (pos - 1) + 1) pos"
    using assms by (intro slice_Cons_indep) simp_all
  then show ?thesis
    by (simp add: layers_step_def Let_def layers_walk_indep [of b rest _ b'])
qed

lemma layers_step_0: "layers_step data 0 S = S"
proof -
  have "layers_walk data (- 1) = - 1" by (subst layers_walk.simps) simp
  then show ?thesis
    by (simp add: layers_step_def Let_def slice_def slice_index_def ascii_decode_ignore_def
        str_strip_def rstrip_by_def)
qed

lemma occurs_at_indep: "1 \<le> i \<Longrightarrow> occurs_at (b # rest) m i = occurs_at (b' # rest) m i"
proof -
  assume "1 \<le> i"
  then obtain k where "nat i = Suc k" by (cases "nat i") auto
  then show ?thesis by (simp add: occurs_at_def)
qed

lemma find_all_Cons:
  "\<exists>pre. (pre = [] \<or> pre = [0]) \<and>
     find_all (b # rest) m = pre @ filter (occurs_at (b # rest) m) [1..int (length rest) + 1]"
proof -
  have "[0..int (length (b # rest))] = 0 # [0 + 1..int (length (b # rest))]"
    by (rule upto_rec1) simp
  then have "[0..int (length (b # rest))] = 0 # [1..int (length rest) + 1]"
    by (simp add: add.commute)
  then show ?thesis by (simp add: find_all_filter)
qed

lemma find_all_tail_indep:
  "filter (occurs_at (b # rest) m) [1..n] = filter (occurs_at (b' # rest) m) [1..n]"
  by (rule filter_cong) (auto simp: occurs_at_indep [of _ b rest m b'])

lemma extract_layers_indep: "extract_layers (b # rest) = extract_layers (b' # rest)"
proof -
  let ?m = "''1CgaT''"
  let ?t = "\<lambda>b. filter (occurs_at (b # rest) ?m) [1..int (length rest) + 1]"
  have fold_eq: "fold (layers_step (c # rest)) (find_all (c # rest) ?m) {}
               = fold (layers_step (c # rest)) (?t c) {}" for c
  proof -
    from find_all_Cons [of c rest ?m] obtain pre where "pre = [] \<or> pre = [0]"
      and "find_all (c # rest) ?m = pre @ ?t c" by blast
    then show ?thesis by (auto simp: layers_step_0)
  qed
  have "fold (layers_step (b # rest)) (?t b) {} = fold (layers_step (b' # rest)) (?t b) {}"
    by (rule fold_cong) (auto simp: layers_step_indep [of _ b rest _ b'] fun_eq_iff)
  moreover have "?t b = ?t b'" by (rule find_all_tail_indep)
  ultimately have "fold (layers_step (b # rest)) (?t b) {} = fold (layers_step (b' # rest)) (?t b') {}"
    by simp
  then show ?thesis by (simp only: extract_layers_def Let_def fold_eq)
qed


lemma bytes_index_indep: "1 \<le> i \<Longrightarrow> bytes_index (b # rest) i = bytes_index (b' # rest) i"
proof -
  assume "1 \<le> i"
  then obtain k where "nat i = Suc k" by (cases "nat i") auto
  with \<open>1 \<le> i\<close> show ?thesis by (simp add: bytes_index_def Let_def)
qed

lemma fonts_walk_indep: "fonts_walk (b # rest) s = fonts_walk (b' # rest) s"
proof (induction "b # rest" s rule: fonts_walk.induct)
  case (1 start)
  show ?case
  proof (cases "0 < start")
    case False
    then show ?thesis by (simp add: fonts_walk.simps [of _ start])
  next
    case True
    then have ix: "bytes_index (b # rest) start = bytes_index (b' # rest) start"
      by (intro bytes_index_indep) simp
    show ?thesis
    proof (cases "bytes_index (b # rest) start")
      case (Inl e)
      with ix have ix': "bytes_index (b' # rest) start = Inl e" by simp
      from True Inl ix' show ?thesis by (simp add: fonts_walk.simps [of _ start])
    next
      case (Inr c)
      with ix have ix': "bytes_index (b' # rest) start = Inr c" by simp
      show ?thesis
      proof (cases "latin1_isalnum (of_char c) \<or> c \<in> set ''-_''")
        case go: True
        from "1.hyps" [OF True Inr go] True Inr ix' go show ?thesis
          by (simp add: fonts_walk.simps [of _ start])
      next
        case False
        with True Inr ix' show ?thesis by (simp add: fonts_walk.simps [of _ start])
      qed
    qed
  qed
qed

lemma fonts_step_indep:
  assumes "1 \<le> pos"
  shows "fonts_step (b # rest) pos S = fonts_step (b' # rest) pos S"
proof (cases "fonts_walk (b' # rest) (pos - 1)")
  case (Inl e)
  then show ?thesis by (simp add: fonts_step_def fonts_walk_indep [of b rest _ b'])
next
  case (Inr s)
  have "0 \<le> s"
  proof (cases "pos - 1 < int (length (b' # rest))")
    case True
    from fonts_walk_total [OF True] Inr assms show ?thesis by auto
  next
    case False
    with assms have "bytes_index (b' # rest) (pos - 1) = Inl IndexError"
      by (simp add: bytes_index_def Let_def)
    with Inr have "\<not> 0 < pos - 1"
      by (subst (asm) fonts_walk.simps) (auto split: if_splits)
    with Inr have "s = pos - 1" by (subst (asm) fonts_walk.simps) simp
    with assms show ?thesis by simp
  qed
  then have "slice (b # rest) (s + 1) pos = slice (b' # rest) (s + 1) pos"
    using assms by (intro slice_Cons_indep) simp_all
  with Inr show ?thesis
    by (simp add: fonts_step_def Let_def fonts_walk_indep [of b rest _ b'])
qed

lemma fonts_step_0: "fonts_step data 0 S = Inr S"
proof -
  have "fonts_walk data (- 1) = Inr (- 1)" by (subst fonts_walk.simps) simp
  then show ?thesis
    by (simp add: fonts_step_def Let_def slice_def slice_index_def ascii_decode_ignore_def)
qed

lemma for_each_cong:
  "(\<And>p S. p \<in> set ps \<Longrightarrow> f p S = g p S) \<Longrightarrow> for_each f ps S = for_each g ps S"
  by (induction ps arbitrary: S) (auto split: sum.splits)

lemma extract_fonts_indep: "extract_fonts (b # rest) = extract_fonts (b' # rest)"
proof -
  let ?m = "''+ymaF''"
  let ?t = "\<lambda>b. filter (occurs_at (b # rest) ?m) [1..int (length rest) + 1]"
  have each_eq: "for_each (fonts_step (c # rest)) (find_all (c # rest) ?m) {}
               = for_each (fonts_step (c # rest)) (?t c) {}" for c
  proof -
    from find_all_Cons [of c rest ?m] obtain pre where "pre = [] \<or> pre = [0]"
      and "find_all (c # rest) ?m = pre @ ?t c" by blast
    then show ?thesis by (auto simp: fonts_step_0)
  qed
  have "for_each (fonts_step (b # rest)) (?t b) {} = for_each (fonts_step (b' # rest)) (?t b) {}"
    by (rule for_each_cong) (auto simp: fonts_step_indep [of _ b rest _ b'])
  moreover have "?t b = ?t b'" by (rule find_all_tail_indep)
  ultimately have "for_each (fonts_step (b # rest)) (?t b) {}
                 = for_each (fonts_step (b' # rest)) (?t b') {}"
    by simp
  then show ?thesis by (simp only: extract_fonts_def Let_def each_eq)
qed

text \<open>
  Claim C9. In both walks the condition \<open>start > 0\<close> stops the walk at index 0 without
  taking the byte there: for an occurrence at \<open>pos \<ge> 1\<close> the final \<open>start\<close> is at least
  0, so the candidate \<open>data[start + 1 : pos]\<close> starts at index 1 or later and is a slice
  of the buffer without its first byte. Hence the names extracted do not depend on the
  first byte of the buffer.
\<close>

theorem first_byte_never_extracted:
  "(1 \<le> pos \<longrightarrow>
      0 \<le> layers_walk data (pos - 1)
      \<and> slice data (layers_walk data (pos - 1) + 1) pos
          = slice (tl data) (layers_walk data (pos - 1)) (pos - 1))
   \<and> (1 \<le> pos \<and> pos \<le> int (length data) \<longrightarrow>
        (\<exists>start. fonts_walk data (pos - 1) = Inr start \<and> 0 \<le> start
           \<and> slice data (start + 1) pos = slice (tl data) start (pos - 1)))
   \<and> extract_layers (b # rest) = extract_layers (b' # rest)
   \<and> extract_fonts (b # rest) = extract_fonts (b' # rest)"
proof -
  have l: "0 \<le> layers_walk data (pos - 1)
           \<and> slice data (layers_walk data (pos - 1) + 1) pos
              = slice (tl data) (layers_walk data (pos - 1)) (pos - 1)" if "1 \<le> pos"
  proof -
    from that have n: "0 \<le> layers_walk data (pos - 1)" by (simp add: layers_walk_nonneg)
    with that slice_tl [of "layers_walk data (pos - 1) + 1" pos data] show ?thesis by simp
  qed
  have f: "\<exists>start. fonts_walk data (pos - 1) = Inr start \<and> 0 \<le> start
           \<and> slice data (start + 1) pos = slice (tl data) start (pos - 1)"
    if "1 \<le> pos" "pos \<le> int (length data)"
  proof -
    from that have "pos - 1 < int (length data)" by simp
    from fonts_walk_total [OF this] that obtain s
      where s: "fonts_walk data (pos - 1) = Inr s" "0 \<le> s" by auto
    with that slice_tl [of "s + 1" pos data] show ?thesis by simp
  qed
  from l f extract_layers_indep [of b rest b'] extract_fonts_indep [of b rest b']
  show ?thesis by blast
qed

theorem first_byte_never_extracted_witness:
  "layers_walk ''MyLayer1CgaT'' 6 = 0
   \<and> slice ''MyLayer1CgaT'' 1 7 = ''yLayer''
   \<and> fonts_walk ''MyFont+ymaF'' 5 = Inr 0
   \<and> extract_layers (CHR ''M'' # ''yLayer1CgaT'') = extract_layers (CHR ''_'' # ''yLayer1CgaT'')
   \<and> extract_fonts (CHR ''M'' # ''yFont+ymaF'') = extract_fonts (CHR ''_'' # ''yFont+ymaF'')"
proof -
  have a: "layers_walk ''MyLayer1CgaT'' 6 = 0" by code_simp
  have b: "slice ''MyLayer1CgaT'' 1 7 = ''yLayer''" by code_simp
  have c: "fonts_walk ''MyFont+ymaF'' 5 = Inr 0" by code_simp
  from first_byte_never_extracted [of 7 "''MyLayer1CgaT''" "CHR ''M''" "''yLayer1CgaT''" "CHR ''_''"]
  have d: "extract_layers (CHR ''M'' # ''yLayer1CgaT'') = extract_layers (CHR ''_'' # ''yLayer1CgaT'')"
    by blast
  from first_byte_never_extracted [of 6 "''MyFont+ymaF''" "CHR ''M''" "''yFont+ymaF''" "CHR ''_''"]
  have e: "extract_fonts (CHR ''M'' # ''yFont+ymaF'') = extract_fonts (CHR ''_'' # ''yFont+ymaF'')"
    by blast
  from a b c d e show ?thesis by (simp only: simp_thms)
qed

section \<open>Text content\<close>

lemma text_step_union: "text_step lw data pos S = S \<union> text_step lw data pos {}"
  by (simp add: text_step_def text_body_def Let_def split: sum.splits)

lemma text_step_finite: "finite (text_step lw data pos {})"
  by (simp add: text_step_def text_body_def Let_def split: sum.splits)

lemma fold_text:
  "fold (text_step lw data) ps {} = (\<Union>p\<in>set ps. text_step lw data p {})"
  using fold_union_steps [of "text_step lw data" ps "{}", OF text_step_union] by simp

lemma extract_text_eq:
  "extract_text lw data
   = Inr (sorted_list_of_set (\<Union>p\<in>set (find_all data ''+8ftU''). text_step lw data p {}))"
  by (simp add: extract_text_def Let_def fold_text)

lemma set_extract_text:
  "set (projr (extract_text lw data))
   = (\<Union>p\<in>set (find_all data ''+8ftU''). text_step lw data p {})"
  by (simp add: extract_text_eq text_step_finite)

text \<open>
  Claim C4, as amended. An occurrence whose declared length is not strictly between 0
  and 500 leaves the set unchanged. For a valid length, let \<open>decoded\<close> be the decoded
  string with its trailing NUL characters removed. The occurrence is skipped when
  \<open>decoded\<close> is empty or all whitespace, or when the lower-case form of \<open>decoded\<close>
  itself (before trimming) contains a denylist token; otherwise the trimmed string is
  added, and is in the result of \<open>extract_text\<close>.
\<close>

theorem text_filter:
  "(unpack_u32_le (slice data (pos + 5) (pos + 9)) = Inr len \<and> \<not> (0 < len \<and> len < 500)
      \<longrightarrow> text_step lw data pos S = S)
   \<and> (unpack_u32_le (slice data (pos + 5) (pos + 9)) = Inr len \<and> 0 < len \<and> len < 500
        \<and> decoded = str_rstrip (utf8_decode (slice data (pos + 9) (pos + 9 + len))) [0]
      \<longrightarrow> (str_strip decoded = [] \<or> list_ex (str_contains (str_lower lw decoded)) denylist
             \<longrightarrow> text_step lw data pos S = S)
        \<and> (str_strip decoded \<noteq> [] \<and> \<not> list_ex (str_contains (str_lower lw decoded)) denylist
             \<longrightarrow> text_step lw data pos S = insert (str_strip decoded) S
                 \<and> (pos \<in> set (find_all data ''+8ftU'')
                      \<longrightarrow> (\<exists>ts. extract_text lw data = Inr ts \<and> str_strip decoded \<in> set ts))))"
proof -
  have strip_nil: "str_strip [] = []" by (simp add: str_strip_def rstrip_by_def)
  have a: "text_step lw data pos S = S"
    if "unpack_u32_le (slice data (pos + 5) (pos + 9)) = Inr len" "\<not> (0 < len \<and> len < 500)"
    using that by (auto simp: text_step_def text_body_def)
  have b: "text_step lw data pos S = S"
    if "unpack_u32_le (slice data (pos + 5) (pos + 9)) = Inr len" "0 < len" "len < 500"
      "decoded = str_rstrip (utf8_decode (slice data (pos + 9) (pos + 9 + len))) [0]"
      "str_strip decoded = [] \<or> list_ex (str_contains (str_lower lw decoded)) denylist"
    using that by (auto simp: text_step_def text_body_def Let_def)
  have c: "text_step lw data pos S' = insert (str_strip decoded) S'"
    if "unpack_u32_le (slice data (pos + 5) (pos + 9)) = Inr len" "0 < len" "len < 500"
      "decoded = str_rstrip (utf8_decode (slice data (pos + 9) (pos + 9 + len))) [0]"
      "str_strip decoded \<noteq> []" "\<not> list_ex (str_contains (str_lower lw decoded)) denylist" for S'
  proof -
    from that(5) strip_nil have "decoded \<noteq> []" by auto
    with that show ?thesis by (simp add: text_step_def text_body_def Let_def)
  qed
  have d: "\<exists>ts. extract_text lw data = Inr ts \<and> str_strip decoded \<in> set ts"
    if "unpack_u32_le (slice data (pos + 5) (pos + 9)) = Inr len" "0 < len" "len < 500"
      "decoded = str_rstrip (utf8_decode (slice data (pos + 9) (pos + 9 + len))) [0]"
      "str_strip decoded \<noteq> []" "\<not> list_ex (str_contains (str_lower lw decoded)) denylist"
      "pos \<in> set (find_all data ''+8ftU'')"
  proof -
    from c [OF that(1-6), of "{}"] have "str_strip decoded \<in> text_step lw data pos {}" by simp
    with that(7) have "str_strip decoded \<in> set (projr (extract_text lw data))"
      unfolding set_extract_text by blast
    then show ?thesis by (simp add: extract_text_eq)
  qed
  from a b c [of S] d show ?thesis by blast
qed

theorem text_filter_witness:
  "text_step id (''+8ftU'' @ [CHR 0x0B, CHR 0x00, CHR 0x00, CHR 0x00] @ ''Hello World'') 0 {}
     = {ascii ''Hello World''}
   \<and> extract_text id (''+8ftU'' @ [CHR 0x0B, CHR 0x00, CHR 0x00, CHR 0x00] @ ''Hello World'')
     = Inr [ascii ''Hello World'']
   \<and> text_step id (''+8ftU'' @ [CHR 0x0D, CHR 0x00, CHR 0x00, CHR 0x00] @ ''siehe seite 5'') 0 {} = {}
   \<and> extract_text id (''+8ftU'' @ [CHR 0x0D, CHR 0x00, CHR 0x00, CHR 0x00] @ ''siehe seite 5'')
     = Inr []
   \<and> text_step id (''+8ftU'' @ [CHR 0xF4, CHR 0x01, CHR 0x00, CHR 0x00] @ ''Hello World'') 0 {} = {}"
proof -
  let ?H = "''+8ftU'' @ [CHR 0x0B, CHR 0x00, CHR 0x00, CHR 0x00] @ ''Hello World''"
  let ?S = "''+8ftU'' @ [CHR 0x0D, CHR 0x00, CHR 0x00, CHR 0x00] @ ''siehe seite 5''"
  let ?L = "''+8ftU'' @ [CHR 0xF4, CHR 0x01, CHR 0x00, CHR 0x00] @ ''Hello World''"
  have h1: "unpack_u32_le (slice ?H (0 + 5) (0 + 9)) = Inr 11" by code_simp
  have h2: "ascii ''Hello World'' = str_rstrip (utf8_decode (slice ?H (0 + 9) (0 + 9 + 11))) [0]"
    by code_simp
  have h3: "str_strip (ascii ''Hello World'') = ascii ''Hello World''" by code_simp
  have h4: "ascii ''Hello World'' \<noteq> []" by code_simp
  have h5: "\<not> list_ex (str_contains (str_lower id (ascii ''Hello World''))) denylist"
    by code_simp
  from text_filter [where data = "?H" and pos = 0 and len = 11 and lw = id and S = "{}"
      and decoded = "ascii ''Hello World''"] h1 h2 h4 h5
  have a: "text_step id ?H 0 {} = {ascii ''Hello World''}"
    unfolding h3 by simp
  have b: "extract_text id ?H = Inr [ascii ''Hello World'']" by code_simp
  have s1: "unpack_u32_le (slice ?S (0 + 5) (0 + 9)) = Inr 13" by code_simp
  have s2: "ascii ''siehe seite 5'' = str_rstrip (utf8_decode (slice ?S (0 + 9) (0 + 9 + 13))) [0]"
    by code_simp
  have s3: "list_ex (str_contains (str_lower id (ascii ''siehe seite 5''))) denylist"
    by code_simp
  from text_filter [where data = "?S" and pos = 0 and len = 13 and lw = id and S = "{}"
      and decoded = "ascii ''siehe seite 5''"] s1 s2 s3
  have c: "text_step id ?S 0 {} = {}" by simp
  have d: "extract_text id ?S = Inr []" by code_simp
  have l1: "unpack_u32_le (slice ?L (0 + 5) (0 + 9)) = Inr 500" by code_simp
  from text_filter [where data = "?L" and pos = 0 and len = 500 and lw = id and S = "{}"] l1
  have e: "text_step id ?L 0 {} = {}" by simp
  from a b c d e show ?thesis by (simp only: simp_thms)
qed

text \<open>
  The claim as stated tests the trimmed string. On the text \<open>ver \<close> (declared length 4)
  the trimmed string \<open>ver\<close> has no denylist token in its lower-case form, yet the
  occurrence is excluded, because the untrimmed text contains the token \<open>ver \<close>.
\<close>

theorem text_filter_counterexample:
  "unpack_u32_le (slice (''+8ftU'' @ [CHR 0x04, CHR 0x00, CHR 0x00, CHR 0x00] @ ''ver '') 5 9) = Inr 4
   \<and> str_strip (str_rstrip (utf8_decode
         (slice (''+8ftU'' @ [CHR 0x04, CHR 0x00, CHR 0x00, CHR 0x00] @ ''ver '') 9 13)) [0])
       = ascii ''ver''
   \<and> \<not> list_ex (str_contains (str_lower id (ascii ''ver''))) denylist
   \<and> find_all (''+8ftU'' @ [CHR 0x04, CHR 0x00, CHR 0x00, CHR 0x00] @ ''ver '') ''+8ftU'' = [0]
   \<and> extract_text id (''+8ftU'' @ [CHR 0x04, CHR 0x00, CHR 0x00, CHR 0x00] @ ''ver '') = Inr []"
  by code_simp

end
